theory Spec2Isabelle
  imports Complex_Main
begin

section \<open>Cycles principled diffuse BSDF and CPU sample scheduling\<close>

text \<open>
  The closure code of \<^verbatim>\<open>intern/cycles/kernel/closure/bsdf_principled_diffuse.h\<close> is
  embedded function by function, in two readings of the C type \<^verbatim>\<open>float\<close>.

  In the first reading a \<^verbatim>\<open>float\<close> is a \<^typ>\<open>real\<close> and the arithmetic is exact. It serves
  the properties of branches, of what is written through the output pointers, and of
  the pdf; every comparison of the closure is a comparison with zero, and is kept as
  the source writes it.

  Exact arithmetic never overflows, so the value that the shading formula returns is
  not taken from the first reading. For it the two functions that compute the value
  are embedded a second time, over floats with infinities and NaN (the section on
  float arithmetic below).

  A pointer that a function writes through is a value that the function takes (the
  contents before the call) and returns (the contents after it).
\<close>

subsection \<open>Vectors\<close>

text \<open>
  \<^verbatim>\<open>float3\<close> with its constructor \<^verbatim>\<open>make_float3\<close>. The vector helpers that the
  closure calls are declared in \<^verbatim>\<open>util/util_math_float3.h\<close>, which is not one of the
  embedded files. \<open>dot\<close> is modelled from the spec. The operators \<^verbatim>\<open>*\<close>, \<^verbatim>\<open>-\<close> on
  \<^verbatim>\<open>float3\<close> are taken componentwise; they only feed the ray differentials of the valid
  branch of the sample function, and no property below depends on what they compute.
\<close>

datatype float3 = make_float3 (float3_x: real) (float3_y: real) (float3_z: real)

fun dot :: "float3 \<Rightarrow> float3 \<Rightarrow> real" where
  \<comment> \<open>Modelled from the spec: \<open>dot\<close>, whose declaration is missing, is the dot product.\<close>
  "dot (make_float3 ax ay az) (make_float3 bx by bz) = ax * bx + ay * by + az * bz"

fun float3_scale :: "real \<Rightarrow> float3 \<Rightarrow> float3" where
  "float3_scale f (make_float3 ax ay az) = make_float3 (f * ax) (f * ay) (f * az)"

fun float3_sub :: "float3 \<Rightarrow> float3 \<Rightarrow> float3" where
  "float3_sub (make_float3 ax ay az) (make_float3 bx by bz) =
     make_float3 (ax - bx) (ay - by) (az - bz)"

fun float3_neg :: "float3 \<Rightarrow> float3" where
  "float3_neg (make_float3 ax ay az) = make_float3 (- ax) (- ay) (- az)"

definition M_1_PI_F :: real where
  \<comment> \<open>Modelled from the spec: the macro \<^verbatim>\<open>M_1_PI_F\<close>, whose definition is missing, is the
      constant \<open>1/\<pi>\<close> of the formula.\<close>
  "M_1_PI_F = 1 / pi"

definition fmaxf :: "real \<Rightarrow> real \<Rightarrow> real" where
  \<comment> \<open>The maximum of the C library, on numbers.\<close>
  "fmaxf a b = max a b"

subsection \<open>Declarations the closure includes\<close>

text \<open>
  The closure uses two helpers of \<^verbatim>\<open>kernel/closure/bsdf_util.h\<close> and of the sampling
  utilities, and five enumeration constants of \<^verbatim>\<open>kernel/kernel_types.h\<close>. None of these
  headers is one of the embedded files, so they are parameters of the model, and
  every theorem below holds for all of them.

  \<^item> \<open>schlick_fresnel\<close> is a function of one float.
  \<^item> \<open>sample_cos_hemisphere\<close> takes the normal and the random pair and writes through
    \<^verbatim>\<open>omega_in\<close> and \<^verbatim>\<open>pdf\<close>: it maps the contents of both before the call to their
    contents after it.
  \<^item> \<open>RAY_DIFFERENTIALS\<close> says whether \<^verbatim>\<open>__RAY_DIFFERENTIALS__\<close> is defined.
\<close>

record kernel_decls =
  schlick_fresnel :: "real \<Rightarrow> real"
  sample_cos_hemisphere :: "float3 \<Rightarrow> real \<Rightarrow> real \<Rightarrow> float3 \<Rightarrow> real \<Rightarrow> float3 \<times> real"
  CLOSURE_BSDF_PRINCIPLED_DIFFUSE_ID :: int
  SD_BSDF :: int
  SD_BSDF_HAS_EVAL :: int
  LABEL_REFLECT :: int
  LABEL_DIFFUSE :: int
  RAY_DIFFERENTIALS :: bool

subsection \<open>The closure\<close>

text \<open>
  \<^verbatim>\<open>struct PrincipledDiffuseBsdf { SHADER_CLOSURE_BASE; float roughness; }\<close>.
  Modelled from the spec: the fields of the macro \<^verbatim>\<open>SHADER_CLOSURE_BASE\<close>, whose
  definition is missing, are the type tag and the shading normal; these are the two
  that the closure code touches (it writes \<^verbatim>\<open>type\<close> and reads \<^verbatim>\<open>N\<close>). The functions
  that take a \<^verbatim>\<open>const ShaderClosure *\<close> cast it to this struct at once, so they take
  the struct here.
\<close>

record PrincipledDiffuseBsdf =
  bsdf_type :: int
  bsdf_N :: float3
  bsdf_roughness :: real

definition calculate_principled_diffuse_brdf ::
  "kernel_decls \<Rightarrow> PrincipledDiffuseBsdf \<Rightarrow> float3 \<Rightarrow> float3 \<Rightarrow> float3 \<Rightarrow> real
     \<Rightarrow> float3 \<times> real" where
  "calculate_principled_diffuse_brdf K bsdf N V L pdf =
     (let NdotL = dot N L in
      if NdotL \<le> 0 then (make_float3 0 0 0, pdf)
      else
        let NdotV = dot N V;
            LH2 = dot L V + 1;
            FL = schlick_fresnel K NdotL;
            FV = schlick_fresnel K NdotV;
            Fd90 = 0.5 + LH2 * bsdf_roughness bsdf;
            Fd = (1 - FL + Fd90 * FL) * (1 - FV + Fd90 * FV);
            value = M_1_PI_F * NdotL * Fd
        in (make_float3 value value value, pdf))"

definition bsdf_principled_diffuse_setup ::
  "kernel_decls \<Rightarrow> PrincipledDiffuseBsdf \<Rightarrow> int \<times> PrincipledDiffuseBsdf" where
  "bsdf_principled_diffuse_setup K bsdf =
     (or (SD_BSDF K) (SD_BSDF_HAS_EVAL K),
      bsdf\<lparr>bsdf_type := CLOSURE_BSDF_PRINCIPLED_DIFFUSE_ID K\<rparr>)"

definition bsdf_principled_diffuse_eval_reflect ::
  "kernel_decls \<Rightarrow> PrincipledDiffuseBsdf \<Rightarrow> float3 \<Rightarrow> float3 \<Rightarrow> real \<Rightarrow> float3 \<times> real" where
  "bsdf_principled_diffuse_eval_reflect K sc I omega_in pdf =
     (let bsdf = sc;
          N = bsdf_N bsdf;
          V = I;
          L = omega_in
      in if dot N omega_in > 0
         then calculate_principled_diffuse_brdf K bsdf N V L
                (fmaxf (dot N omega_in) 0 * M_1_PI_F)
         else (make_float3 0 0 0, 0))"

definition bsdf_principled_diffuse_eval_transmit ::
  "kernel_decls \<Rightarrow> PrincipledDiffuseBsdf \<Rightarrow> float3 \<Rightarrow> float3 \<Rightarrow> real \<Rightarrow> float3 \<times> real" where
  "bsdf_principled_diffuse_eval_transmit K sc I omega_in pdf = (make_float3 0 0 0, pdf)"

text \<open>
  The five locations \<^verbatim>\<open>bsdf_principled_diffuse_sample\<close> may write through.
\<close>

record sample_outputs =
  out_eval :: float3
  out_omega_in :: float3
  out_domega_in_dx :: float3
  out_domega_in_dy :: float3
  out_pdf :: real

definition bsdf_principled_diffuse_sample ::
  "kernel_decls \<Rightarrow> PrincipledDiffuseBsdf \<Rightarrow> float3 \<Rightarrow> float3 \<Rightarrow> float3 \<Rightarrow> float3
     \<Rightarrow> real \<Rightarrow> real \<Rightarrow> sample_outputs \<Rightarrow> int \<times> sample_outputs" where
  "bsdf_principled_diffuse_sample K sc Ng I dIdx dIdy randu randv out =
     (let bsdf = sc;
          N = bsdf_N bsdf;
          sampled = sample_cos_hemisphere K N randu randv (out_omega_in out) (out_pdf out);
          out1 = out\<lparr>out_omega_in := fst sampled, out_pdf := snd sampled\<rparr>;
          out4 =
            (if dot Ng (out_omega_in out1) > 0 then
               let r = calculate_principled_diffuse_brdf K bsdf N I (out_omega_in out1)
                         (out_pdf out1);
                   out2 = out1\<lparr>out_eval := fst r, out_pdf := snd r\<rparr>
               in if RAY_DIFFERENTIALS K then
                    out2\<lparr>out_domega_in_dx :=
                           float3_neg (float3_sub (float3_scale (2 * dot N dIdx) N) dIdx),
                         out_domega_in_dy :=
                           float3_neg (float3_sub (float3_scale (2 * dot N dIdy) N) dIdy)\<rparr>
                  else out2
             else out1\<lparr>out_pdf := 0\<rparr>)
      in (or (LABEL_REFLECT K) (LABEL_DIFFUSE K), out4))"

definition roughness_in_valid_range :: "real \<Rightarrow> bool" where
  \<comment> \<open>Modelled from the spec: the specification speaks of the valid range that roughness
      is clamped to and gives no numbers, and the closure source declares no range; the
      parameter range of the shading model, from 0 to 1, is taken.\<close>
  "roughness_in_valid_range r = (0 \<le> r \<and> r \<le> 1)"

subsection \<open>An instance of the included declarations\<close>

text \<open>
  The theorems quantify over \<^typ>\<open>kernel_decls\<close>. To run the closure on concrete inputs
  one instance is fixed here: the clamped fifth power for the Fresnel weight, a sampler
  that reads the direction off the random pair, and enumeration values that are
  distinct bits. Nothing below depends on these choices except the concrete runs.
\<close>

definition example_decls :: kernel_decls where
  "example_decls =
     \<lparr>schlick_fresnel = (\<lambda>u. (max 0 (min 1 (1 - u))) ^ 5),
      sample_cos_hemisphere =
        (\<lambda>N randu randv omega_in pdf.
           (make_float3 randu randv (1 - randu - randv), (1 - randu - randv) * M_1_PI_F)),
      CLOSURE_BSDF_PRINCIPLED_DIFFUSE_ID = 2,
      SD_BSDF = 4,
      SD_BSDF_HAS_EVAL = 8,
      LABEL_REFLECT = 2,
      LABEL_DIFFUSE = 4,
      RAY_DIFFERENTIALS = True\<rparr>"

definition example_bsdf :: "real \<Rightarrow> PrincipledDiffuseBsdf" where
  "example_bsdf r = \<lparr>bsdf_type = 0, bsdf_N = make_float3 0 0 1, bsdf_roughness = r\<rparr>"

definition example_outputs :: sample_outputs where
  "example_outputs =
     \<lparr>out_eval = make_float3 5 5 5, out_omega_in = make_float3 0 0 0,
      out_domega_in_dx = make_float3 6 6 6, out_domega_in_dy = make_float3 7 7 7,
      out_pdf = 9\<rparr>"

section \<open>The value of the shading formula in float arithmetic\<close>

subsection \<open>Floats with infinities and NaN\<close>

text \<open>
  A \<^verbatim>\<open>float\<close> is a finite number, an infinity or NaN. An operation on finite numbers
  gives the exact result when that lies within the range of \<^verbatim>\<open>float\<close> and an infinity
  when it lies beyond it; the special values follow the IEEE 754 rules, which is what
  the C operators \<^verbatim>\<open>+\<close>, \<^verbatim>\<open>-\<close>, \<^verbatim>\<open>*\<close>, \<^verbatim>\<open><=\<close>, \<^verbatim>\<open>>\<close> do on \<^verbatim>\<open>float\<close>: NaN spreads through
  arithmetic and fails every comparison, infinity times zero and infinity minus infinity
  are NaN. What is left out is the rounding of a result in range to 24 significant
  bits, together with underflow and the sign of zero.
\<close>

datatype float32 = Finite real | PosInf | NegInf | NaN



fun float_neg :: "float32 \<Rightarrow> float32" where
  "float_neg (Finite x) = Finite (- x)"
| "float_neg PosInf = NegInf"
| "float_neg NegInf = PosInf"
| "float_neg NaN = NaN"





fun float_lt :: "float32 \<Rightarrow> float32 \<Rightarrow> bool" where
  "float_lt (Finite x) (Finite y) = (x < y)"
| "float_lt NaN b = False"
| "float_lt a NaN = False"
| "float_lt PosInf b = False"
| "float_lt a NegInf = False"
| "float_lt NegInf b = True"
| "float_lt a PosInf = True"

fun float_fmaxf :: "float32 \<Rightarrow> float32 \<Rightarrow> float32" where
  \<comment> \<open>\<^verbatim>\<open>fmaxf\<close> of the C library: a NaN argument is ignored.\<close>
  "float_fmaxf NaN b = b"
| "float_fmaxf a NaN = a"
| "float_fmaxf a b = (if float_lt a b then b else a)"



subsection \<open>The two functions that compute the value\<close>







subsection \<open>The formula, as the specification words it\<close>





section \<open>The tile and sample scheduler\<close>

text \<open>
  \<^verbatim>\<open>intern/cycles/integrator/path_trace_work_cpu.h\<close> declares
  \<^verbatim>\<open>PathTraceWorkCPU::render_samples(int start_sample, int samples_num)\<close> and
  \<^verbatim>\<open>render_samples_full_pipeline(kernel_globals, work_tile, samples_num)\<close>; the class
  takes the cancellation flag as \<^verbatim>\<open>bool *cancel_requested_flag\<close> and holds the render
  buffers. The bodies are in a file that is not among the sources, so the scheduler
  below follows the specification (sections 3, 4.3, 4.4 and 5): a pool of workers pulls
  tiles from a queue, the flag is polled between tiles, a tile that was started is
  rendered to its last sample.
\<close>

subsection \<open>Tiles and buffers\<close>

text \<open>
  Modelled from the spec: the work tile, whose declaration (\<^verbatim>\<open>KernelWorkTile\<close>) is
  missing: a rectangular pixel region and the first sample of its sample range; the
  number of samples is passed beside it, as the header does.
\<close>

record KernelWorkTile =
  tile_x :: int
  tile_y :: int
  tile_w :: int
  tile_h :: int
  tile_start_sample :: int

text \<open>
  Modelled from the spec: the render buffers, whose declaration (\<^verbatim>\<open>RenderBuffers\<close>) is
  missing: per pixel a radiance sum, a sample count and the sum of squares from which
  the variance estimate is taken.
\<close>

record pixel_accumulator =
  radiance_sum :: real
  sample_count :: nat
  radiance_squares_sum :: real

type_synonym pixel = "int \<times> int"

type_synonym RenderBuffers = "pixel \<Rightarrow> pixel_accumulator"

type_synonym work_item = "pixel \<times> int"

definition accumulate_pixel :: "pixel_accumulator \<Rightarrow> real \<Rightarrow> pixel_accumulator" where
  \<comment> \<open>Modelled from the spec: the accumulator update of section 4.4, whose code is missing:
      add the radiance, count the sample, update the variance statistics.\<close>
  "accumulate_pixel a v =
     a\<lparr>radiance_sum := radiance_sum a + v,
       sample_count := Suc (sample_count a),
       radiance_squares_sum := radiance_squares_sum a + v * v\<rparr>"

definition accumulate :: "RenderBuffers \<Rightarrow> pixel \<Rightarrow> real \<Rightarrow> RenderBuffers" where
  \<comment> \<open>Modelled from the spec: \<open>accumulate(pixel, sample_value)\<close> of section 4.4, whose code
      is missing.\<close>
  "accumulate buffers p v = buffers(p := accumulate_pixel (buffers p) v)"

definition tile_pixels :: "KernelWorkTile \<Rightarrow> pixel list" where
  \<comment> \<open>Modelled from the spec: the pixels of the rectangular region of a tile.\<close>
  "tile_pixels t =
     List.product [tile_x t .. tile_x t + tile_w t - 1] [tile_y t .. tile_y t + tile_h t - 1]"

definition tile_samples :: "KernelWorkTile \<Rightarrow> int \<Rightarrow> int list" where
  \<comment> \<open>Modelled from the spec: the sample range from \<open>start_sample\<close> up to, and without,
      \<open>start_sample + samples_num\<close>.\<close>
  "tile_samples t samples_num = [tile_start_sample t .. tile_start_sample t + samples_num - 1]"

definition tile_work :: "KernelWorkTile \<Rightarrow> int \<Rightarrow> work_item list" where
  \<comment> \<open>Modelled from the spec: the work of one tile, every pixel of the tile with every
      sample of the range, pixel after pixel.\<close>
  "tile_work t samples_num = List.product (tile_pixels t) (tile_samples t samples_num)"

definition render_work_item ::
  "(pixel \<Rightarrow> int \<Rightarrow> real) \<Rightarrow> work_item \<Rightarrow> RenderBuffers \<Rightarrow> RenderBuffers" where
  \<comment> \<open>Modelled from the spec: one run of the full pipeline (generate ray, trace, shade) for
      a pixel and a sample, whose result \<open>pipeline p s\<close> is accumulated. The pipeline is a
      parameter.\<close>
  "render_work_item pipeline item buffers =
     accumulate buffers (fst item) (pipeline (fst item) (snd item))"

definition render_samples_full_pipeline ::
  "(pixel \<Rightarrow> int \<Rightarrow> real) \<Rightarrow> KernelWorkTile \<Rightarrow> int \<Rightarrow> RenderBuffers \<Rightarrow> RenderBuffers" where
  \<comment> \<open>Modelled from the spec: the body of \<open>render_samples_full_pipeline\<close>, which is missing:
      one tile, pixels times samples, with no read of the cancellation flag.\<close>
  "render_samples_full_pipeline pipeline t samples_num buffers =
     fold (render_work_item pipeline) (tile_work t samples_num) buffers"

definition work_tiles :: "KernelWorkTile list \<Rightarrow> int \<Rightarrow> KernelWorkTile list" where
  \<comment> \<open>Modelled from the spec: the tiles of one call of \<open>render_samples\<close>. The partition of
      the frame is not fixed by the specification and is the parameter \<open>tiles\<close>; every
      tile gets the sample range of the call.\<close>
  "work_tiles tiles start_sample = map (\<lambda>t. t\<lparr>tile_start_sample := start_sample\<rparr>) tiles"

fun regions_disjoint :: "KernelWorkTile list \<Rightarrow> bool" where
  \<comment> \<open>Modelled from the spec: the partition invariant of section 5, no two tiles share a
      pixel.\<close>
  "regions_disjoint [] = True"
| "regions_disjoint (t # ts) =
     ((\<forall>u \<in> set ts. set (tile_pixels t) \<inter> set (tile_pixels u) = {}) \<and> regions_disjoint ts)"

subsection \<open>The call as a function of what the polls read\<close>

text \<open>
  Tile after tile, the flag is read once before a tile is started. The flag belongs to
  another thread: what the read number \<open>k\<close> returns is \<open>cancel_requested k\<close>, an
  arbitrary function. With \<open>\<lambda>k. False\<close> this is the run that is never cancelled.
\<close>

fun render_tiles ::
  "(pixel \<Rightarrow> int \<Rightarrow> real) \<Rightarrow> (nat \<Rightarrow> bool) \<Rightarrow> nat \<Rightarrow> KernelWorkTile list \<Rightarrow> int
     \<Rightarrow> RenderBuffers \<Rightarrow> RenderBuffers" where
  \<comment> \<open>Modelled from the spec: the loop over the tiles of \<open>render_samples\<close>, whose body is
      missing: the flag is polled between tiles; a tile polled with the flag set is
      skipped, any other runs to completion. \<open>k\<close> counts the polls.\<close>
  "render_tiles pipeline cancel_requested k [] samples_num buffers = buffers"
| "render_tiles pipeline cancel_requested k (t # ts) samples_num buffers =
     render_tiles pipeline cancel_requested (Suc k) ts samples_num
       (if cancel_requested k then buffers
        else render_samples_full_pipeline pipeline t samples_num buffers)"

definition render_samples ::
  "(pixel \<Rightarrow> int \<Rightarrow> real) \<Rightarrow> (nat \<Rightarrow> bool) \<Rightarrow> KernelWorkTile list \<Rightarrow> int \<Rightarrow> int
     \<Rightarrow> RenderBuffers \<Rightarrow> RenderBuffers" where
  \<comment> \<open>Modelled from the spec: the body of \<open>PathTraceWorkCPU::render_samples\<close>, which is
      missing, on one worker.\<close>
  "render_samples pipeline cancel_requested tiles start_sample samples_num buffers =
     render_tiles pipeline cancel_requested 0 (work_tiles tiles start_sample) samples_num buffers"

subsection \<open>The call on a pool of workers\<close>

text \<open>
  Modelled from the spec: the state of one call of \<open>render_samples\<close> on a fixed pool of
  workers (section 5), whose code is missing. \<open>next_tile\<close> is the head of the work queue;
  \<open>in_flight\<close> gives, for a tile that some worker is rendering, the work still to do on
  it; \<open>idle_workers\<close> counts the workers without a tile; \<open>cancel_requested_flag\<close> is the
  shared flag. \<open>polls\<close> records what each poll of the flag read, in the order of the
  tiles; nothing reads it.

  The workers run in parallel. An execution is an interleaving of their events, given as
  a list: another thread sets the flag (\<open>RequestCancel\<close>) at any moment; an idle worker
  takes the next tile off the queue (\<open>PullTile\<close>), polls the flag, and drops the tile if
  the flag is set; the worker on tile \<open>i\<close> renders its next pixel sample or, with none
  left, becomes idle (\<open>Advance i\<close>). An event that is not enabled gives \<open>None\<close>.
\<close>

record PathTraceWorkCPU =
  next_tile :: nat
  in_flight :: "nat \<Rightarrow> work_item list option"
  idle_workers :: nat
  cancel_requested_flag :: bool
  render_buffers :: RenderBuffers
  polls :: "bool list"

datatype event = RequestCancel | PullTile | Advance nat

definition step ::
  "(pixel \<Rightarrow> int \<Rightarrow> real) \<Rightarrow> KernelWorkTile list \<Rightarrow> int \<Rightarrow> PathTraceWorkCPU \<Rightarrow> event
     \<Rightarrow> PathTraceWorkCPU option" where
  \<comment> \<open>Modelled from the spec: one event of the pool, the code of which is missing. The flag
      is read in \<open>PullTile\<close> only.\<close>
  "step pipeline T samples_num s e =
     (case e of
        RequestCancel \<Rightarrow> Some (s\<lparr>cancel_requested_flag := True\<rparr>)
      | PullTile \<Rightarrow>
          if 0 < idle_workers s \<and> next_tile s < length T then
            if cancel_requested_flag s then
              Some (s\<lparr>next_tile := Suc (next_tile s), polls := polls s @ [True]\<rparr>)
            else
              Some (s\<lparr>next_tile := Suc (next_tile s), polls := polls s @ [False],
                      idle_workers := idle_workers s - 1,
                      in_flight := (in_flight s)
                        (next_tile s \<mapsto> tile_work (T ! next_tile s) samples_num)\<rparr>)
          else None
      | Advance i \<Rightarrow>
          (case in_flight s i of
             None \<Rightarrow> None
           | Some [] \<Rightarrow>
               Some (s\<lparr>in_flight := (in_flight s)(i := None),
                       idle_workers := Suc (idle_workers s)\<rparr>)
           | Some (item # rest) \<Rightarrow>
               Some (s\<lparr>render_buffers := render_work_item pipeline item (render_buffers s),
                       in_flight := (in_flight s)(i \<mapsto> rest)\<rparr>)))"

fun run ::
  "(pixel \<Rightarrow> int \<Rightarrow> real) \<Rightarrow> KernelWorkTile list \<Rightarrow> int \<Rightarrow> PathTraceWorkCPU \<Rightarrow> event list
     \<Rightarrow> PathTraceWorkCPU option" where
  \<comment> \<open>Modelled from the spec: an execution, one event after the other.\<close>
  "run pipeline T samples_num s [] = Some s"
| "run pipeline T samples_num s (e # es) =
     (case step pipeline T samples_num s e of
        None \<Rightarrow> None
      | Some s' \<Rightarrow> run pipeline T samples_num s' es)"

definition start_state :: "nat \<Rightarrow> bool \<Rightarrow> RenderBuffers \<Rightarrow> PathTraceWorkCPU" where
  \<comment> \<open>Modelled from the spec: the state at the call: all tiles queued, all workers idle,
      the flag as the caller left it, the buffers with what earlier calls accumulated.\<close>
  "start_state num_workers flag buffers =
     \<lparr>next_tile = 0, in_flight = (\<lambda>i. None), idle_workers = num_workers,
      cancel_requested_flag = flag, render_buffers = buffers, polls = []\<rparr>"

definition finished :: "KernelWorkTile list \<Rightarrow> PathTraceWorkCPU \<Rightarrow> bool" where
  \<comment> \<open>Modelled from the spec: the call returns when the queue is empty and no tile is in
      flight.\<close>
  "finished T s = (next_tile s = length T \<and> (\<forall>i < length T. in_flight s i = None))"

definition render_samples_parallel ::
  "(pixel \<Rightarrow> int \<Rightarrow> real) \<Rightarrow> KernelWorkTile list \<Rightarrow> int \<Rightarrow> int \<Rightarrow> nat \<Rightarrow> bool
     \<Rightarrow> RenderBuffers \<Rightarrow> event list \<Rightarrow> PathTraceWorkCPU option" where
  \<comment> \<open>Modelled from the spec: the body of \<open>PathTraceWorkCPU::render_samples\<close>, which is
      missing, on a pool of \<open>num_workers\<close> workers, up to the last event of \<open>es\<close>.\<close>
  "render_samples_parallel pipeline tiles start_sample samples_num num_workers flag buffers es =
     run pipeline (work_tiles tiles start_sample) samples_num
       (start_state num_workers flag buffers) es"

subsection \<open>A concrete execution\<close>

text \<open>
  Two tiles of one pixel each, two samples, one worker, a pipeline that returns 1. In
  \<open>example_state\<close> the first tile has one of its two samples and the flag has just been
  set; \<open>example_end_state\<close> is the state in which the call returns.
\<close>

definition example_tiles :: "KernelWorkTile list" where
  "example_tiles =
     [\<lparr>tile_x = 0, tile_y = 0, tile_w = 1, tile_h = 1, tile_start_sample = 0\<rparr>,
      \<lparr>tile_x = 1, tile_y = 0, tile_w = 1, tile_h = 1, tile_start_sample = 0\<rparr>]"

definition empty_buffers :: RenderBuffers where
  "empty_buffers = (\<lambda>p. \<lparr>radiance_sum = 0, sample_count = 0, radiance_squares_sum = 0\<rparr>)"

definition example_state :: PathTraceWorkCPU where
  "example_state =
     the (render_samples_parallel (\<lambda>p s. 1) example_tiles 0 2 1 False empty_buffers
            [PullTile, Advance 0, RequestCancel])"

definition example_end_state :: PathTraceWorkCPU where
  "example_end_state =
     the (run (\<lambda>p s. 1) (work_tiles example_tiles 0) 2 example_state
            [Advance 0, Advance 0, PullTile])"

subsection \<open>Invariants of the pool, for the proofs\<close>

text \<open>
  \<open>pixel_samples\<close> is what a list of samples does to the accumulator of one pixel, and
  \<open>apply_work\<close> what a list of work items does to it. The invariants speak about the
  tiles \<open>T\<close> of the call and the buffers \<open>buf0\<close> at the call: a tile in flight was
  polled with the flag clear and its pixels hold exactly the work done so far; a tile
  polled with the flag clear and no longer in flight holds all its work; a tile that is
  queued, or was polled with the flag set, is untouched, as is every pixel outside the
  tiles.
\<close>

definition pixel_samples ::
  "(pixel \<Rightarrow> int \<Rightarrow> real) \<Rightarrow> pixel \<Rightarrow> int list \<Rightarrow> pixel_accumulator \<Rightarrow> pixel_accumulator" where
  "pixel_samples pipeline p ss a = fold (\<lambda>s a. accumulate_pixel a (pipeline p s)) ss a"

definition apply_work ::
  "(pixel \<Rightarrow> int \<Rightarrow> real) \<Rightarrow> work_item list \<Rightarrow> pixel \<Rightarrow> pixel_accumulator \<Rightarrow> pixel_accumulator" where
  "apply_work pipeline ws p a =
     fold (\<lambda>item a. if fst item = p then accumulate_pixel a (pipeline p (snd item)) else a) ws a"

definition inv_queue :: "KernelWorkTile list \<Rightarrow> PathTraceWorkCPU \<Rightarrow> bool" where
  "inv_queue T s = (next_tile s \<le> length T \<and> length (polls s) = next_tile s)"

definition inv_in_flight ::
  "(pixel \<Rightarrow> int \<Rightarrow> real) \<Rightarrow> KernelWorkTile list \<Rightarrow> int \<Rightarrow> RenderBuffers \<Rightarrow> PathTraceWorkCPU \<Rightarrow> bool" where
  "inv_in_flight pl T n buf0 s =
     (\<forall>i r. in_flight s i = Some r \<longrightarrow>
        i < next_tile s \<and> \<not> polls s ! i
        \<and> (\<exists>d. tile_work (T ! i) n = d @ r
               \<and> (\<forall>p\<in>set (tile_pixels (T ! i)).
                     render_buffers s p = apply_work pl d p (buf0 p))))"

definition inv_completed ::
  "(pixel \<Rightarrow> int \<Rightarrow> real) \<Rightarrow> KernelWorkTile list \<Rightarrow> int \<Rightarrow> RenderBuffers \<Rightarrow> PathTraceWorkCPU \<Rightarrow> bool" where
  "inv_completed pl T n buf0 s =
     (\<forall>i<next_tile s. \<not> polls s ! i \<longrightarrow> in_flight s i = None \<longrightarrow>
        (\<forall>p\<in>set (tile_pixels (T ! i)).
           render_buffers s p = apply_work pl (tile_work (T ! i) n) p (buf0 p)))"

definition inv_untouched :: "KernelWorkTile list \<Rightarrow> RenderBuffers \<Rightarrow> PathTraceWorkCPU \<Rightarrow> bool" where
  "inv_untouched T buf0 s =
     ((\<forall>i<length T. (next_tile s \<le> i \<or> polls s ! i) \<longrightarrow>
         (\<forall>p\<in>set (tile_pixels (T ! i)). render_buffers s p = buf0 p))
      \<and> (\<forall>p. (\<forall>t\<in>set T. p \<notin> set (tile_pixels t)) \<longrightarrow> render_buffers s p = buf0 p))"

definition sched_inv ::
  "(pixel \<Rightarrow> int \<Rightarrow> real) \<Rightarrow> KernelWorkTile list \<Rightarrow> int \<Rightarrow> RenderBuffers \<Rightarrow> PathTraceWorkCPU \<Rightarrow> bool" where
  "sched_inv pl T n buf0 s =
     (inv_queue T s \<and> inv_in_flight pl T n buf0 s \<and> inv_completed pl T n buf0 s
      \<and> inv_untouched T buf0 s)"

definition busy_workers :: "KernelWorkTile list \<Rightarrow> PathTraceWorkCPU \<Rightarrow> nat" where
  "busy_workers T s = (\<Sum>i<length T. case in_flight s i of None \<Rightarrow> 0 | Some r \<Rightarrow> 1)"

definition remaining_work :: "KernelWorkTile list \<Rightarrow> PathTraceWorkCPU \<Rightarrow> nat" where
  "remaining_work T s =
     (\<Sum>i<length T. case in_flight s i of None \<Rightarrow> 0 | Some r \<Rightarrow> Suc (length r))"

definition inv_pool :: "nat \<Rightarrow> KernelWorkTile list \<Rightarrow> PathTraceWorkCPU \<Rightarrow> bool" where
  "inv_pool nw T s =
     ((\<forall>i r. in_flight s i = Some r \<longrightarrow> i < next_tile s) \<and> next_tile s \<le> length T
      \<and> idle_workers s + busy_workers T s = nw)"

section \<open>Properties of the closure\<close>

subsection \<open>The value of the formula\<close>



lemma float_neg_finite: "float_neg a = Finite r \<Longrightarrow> \<exists>x. a = Finite x \<and> r = - x"
  by (cases a) auto




lemma float_fmaxf_pos: "float_lt (Finite 0) d \<Longrightarrow> float_fmaxf d (Finite 0) = d"
  by (cases d) auto





subsection \<open>Branches, outputs and pdf\<close>

text \<open>
  Claim C2. When \<open>dot N omega_in \<le> 0\<close> for the normal \<open>N\<close> of the closure,
  \<open>bsdf_principled_diffuse_eval_reflect\<close> returns zero in every channel and writes 0
  through \<open>pdf\<close>. It is an ordinary result: the function has no other way out.
\<close>

theorem eval_reflect_wrong_side_zero:
  "dot (bsdf_N sc) omega_in \<le> 0 \<Longrightarrow>
     bsdf_principled_diffuse_eval_reflect K sc I omega_in pdf = (make_float3 0 0 0, 0)"
  by (simp add: bsdf_principled_diffuse_eval_reflect_def)

theorem eval_reflect_wrong_side_zero_witness:
  "dot (bsdf_N (example_bsdf (1 / 2))) (make_float3 0 0 (- 1)) \<le> 0
   \<and> bsdf_principled_diffuse_eval_reflect example_decls (example_bsdf (1 / 2))
       (make_float3 0 0 1) (make_float3 0 0 (- 1)) 7 = (make_float3 0 0 0, 0)"
  using eval_reflect_wrong_side_zero [of "example_bsdf (1 / 2)" "make_float3 0 0 (- 1)"
      example_decls "make_float3 0 0 1" 7]
  by (simp add: example_bsdf_def)

text \<open>
  Claim C3. When the direction that \<open>sample_cos_hemisphere\<close> wrote to \<open>omega_in\<close> has
  \<open>dot Ng omega_in \<le> 0\<close>, \<open>bsdf_principled_diffuse_sample\<close> leaves 0 in \<open>pdf\<close>.
\<close>

theorem sample_below_geometric_normal_pdf_zero:
  "dot Ng (fst (sample_cos_hemisphere K (bsdf_N sc) randu randv (out_omega_in out) (out_pdf out)))
     \<le> 0
   \<Longrightarrow> out_pdf (snd (bsdf_principled_diffuse_sample K sc Ng I dIdx dIdy randu randv out)) = 0"
  by (simp add: bsdf_principled_diffuse_sample_def Let_def)

theorem sample_below_geometric_normal_pdf_zero_witness:
  "dot (make_float3 0 0 1)
     (fst (sample_cos_hemisphere example_decls (bsdf_N (example_bsdf (1 / 2))) 1 1
        (out_omega_in example_outputs) (out_pdf example_outputs))) \<le> 0
   \<and> out_pdf (snd (bsdf_principled_diffuse_sample example_decls (example_bsdf (1 / 2))
        (make_float3 0 0 1) (make_float3 1 0 0) (make_float3 0 0 0) (make_float3 0 0 0)
        1 1 example_outputs)) = 0"
  using sample_below_geometric_normal_pdf_zero [of "make_float3 0 0 1" example_decls
      "example_bsdf (1 / 2)" 1 1 example_outputs "make_float3 1 0 0" "make_float3 0 0 0"
      "make_float3 0 0 0"]
  by (simp add: example_decls_def)



text \<open>
  Claim C5, as the code has it. \<open>bsdf_principled_diffuse_setup\<close> has no failing path: for
  every closure it sets the type tag to \<open>CLOSURE_BSDF_PRINCIPLED_DIFFUSE_ID\<close> and returns
  \<open>SD_BSDF | SD_BSDF_HAS_EVAL\<close>. It changes nothing else: the roughness and the normal
  stay what they were, whether or not the roughness is in the valid range.
\<close>

theorem setup_sets_type_and_returns_flags:
  "bsdf_principled_diffuse_setup K bsdf =
     (or (SD_BSDF K) (SD_BSDF_HAS_EVAL K),
      bsdf\<lparr>bsdf_type := CLOSURE_BSDF_PRINCIPLED_DIFFUSE_ID K\<rparr>)
   \<and> bsdf_type (snd (bsdf_principled_diffuse_setup K bsdf)) =
       CLOSURE_BSDF_PRINCIPLED_DIFFUSE_ID K
   \<and> bsdf_roughness (snd (bsdf_principled_diffuse_setup K bsdf)) = bsdf_roughness bsdf
   \<and> bsdf_N (snd (bsdf_principled_diffuse_setup K bsdf)) = bsdf_N bsdf"
  by (simp add: bsdf_principled_diffuse_setup_def)

text \<open>
  Claim C5 as stated fails: a closure that comes with roughness 2 leaves the setup with
  roughness 2, outside the valid range.
\<close>

theorem setup_keeps_roughness_out_of_range:
  "\<not> roughness_in_valid_range
       (bsdf_roughness (snd (bsdf_principled_diffuse_setup example_decls (example_bsdf 2))))"
  by (simp add: bsdf_principled_diffuse_setup_def example_bsdf_def roughness_in_valid_range_def)

text \<open>
  Claim C6, as the code has it. \<open>bsdf_principled_diffuse_eval_transmit\<close> returns zero in
  every channel for every input and does not write through \<open>pdf\<close>: after the call
  \<open>pdf\<close> holds what the caller had stored there.
\<close>

theorem eval_transmit_zero_pdf_untouched:
  "bsdf_principled_diffuse_eval_transmit K sc I omega_in pdf = (make_float3 0 0 0, pdf)"
  by (simp add: bsdf_principled_diffuse_eval_transmit_def)

text \<open>
  Claim C6 as stated fails: called with 1 stored in \<open>pdf\<close>, the function leaves 1 there,
  not 0.
\<close>

theorem eval_transmit_leaves_pdf_nonzero:
  "snd (bsdf_principled_diffuse_eval_transmit example_decls (example_bsdf (1 / 2))
          (make_float3 0 0 1) (make_float3 0 0 (- 1)) 1) \<noteq> 0"
  by (simp add: bsdf_principled_diffuse_eval_transmit_def)

text \<open>
  Claim C9. When the sampled direction has \<open>dot Ng omega_in \<le> 0\<close>, the branch taken
  writes \<open>pdf\<close> only, setting it to 0: the outputs are those that
  \<open>sample_cos_hemisphere\<close> left (the sampled direction in \<open>omega_in\<close>) with 0 in \<open>pdf\<close>;
  \<open>eval\<close> and both ray differentials hold what they held before the call; and the
  label returned is \<open>LABEL_REFLECT | LABEL_DIFFUSE\<close>, which is the label returned on
  every input, so it tells nothing about validity.
\<close>

theorem sample_invalid_branch_frame:
  "dot Ng (fst (sample_cos_hemisphere K (bsdf_N sc) randu randv (out_omega_in out) (out_pdf out)))
     \<le> 0
   \<Longrightarrow> (let r = bsdf_principled_diffuse_sample K sc Ng I dIdx dIdy randu randv out in
          fst r = or (LABEL_REFLECT K) (LABEL_DIFFUSE K)
          \<and> out_pdf (snd r) = 0
          \<and> out_eval (snd r) = out_eval out
          \<and> out_domega_in_dx (snd r) = out_domega_in_dx out
          \<and> out_domega_in_dy (snd r) = out_domega_in_dy out
          \<and> snd r =
              out\<lparr>out_omega_in :=
                    fst (sample_cos_hemisphere K (bsdf_N sc) randu randv (out_omega_in out)
                           (out_pdf out)),
                  out_pdf := 0\<rparr>
          \<and> fst (bsdf_principled_diffuse_sample K sc' Ng' I' dIdx' dIdy' randu' randv' out') =
              fst r)"
  by (simp add: bsdf_principled_diffuse_sample_def Let_def)

theorem sample_invalid_branch_frame_witness:
  "dot (make_float3 0 0 1)
     (fst (sample_cos_hemisphere example_decls (bsdf_N (example_bsdf (1 / 2))) 1 1
        (out_omega_in example_outputs) (out_pdf example_outputs))) \<le> 0
   \<and> bsdf_principled_diffuse_sample example_decls (example_bsdf (1 / 2))
        (make_float3 0 0 1) (make_float3 1 0 0) (make_float3 1 0 0) (make_float3 0 1 0)
        1 1 example_outputs =
       (6, \<lparr>out_eval = make_float3 5 5 5, out_omega_in = make_float3 1 1 (- 1),
            out_domega_in_dx = make_float3 6 6 6, out_domega_in_dy = make_float3 7 7 7,
            out_pdf = 0\<rparr>)"
  using sample_invalid_branch_frame [of "make_float3 0 0 1" example_decls
      "example_bsdf (1 / 2)" 1 1 example_outputs "make_float3 1 0 0" "make_float3 1 0 0"
      "make_float3 0 1 0"]
  by (simp add: example_decls_def example_outputs_def Let_def prod_eq_iff)

text \<open>
  Claim C10. When \<open>dot N omega_in > 0\<close> for the normal \<open>N\<close> of the closure, the pdf that
  \<open>bsdf_principled_diffuse_eval_reflect\<close> leaves is \<open>dot N omega_in \<sqdot> (1/\<pi>)\<close>, whatever
  the roughness: \<open>calculate_principled_diffuse_brdf\<close> hands its \<open>pdf\<close> back as it got it.
\<close>

theorem eval_reflect_pdf_cosine:
  "dot (bsdf_N sc) omega_in > 0 \<Longrightarrow>
     snd (bsdf_principled_diffuse_eval_reflect K sc I omega_in pdf) =
       dot (bsdf_N sc) omega_in * (1 / pi)
     \<and> snd (calculate_principled_diffuse_brdf K bsdf N V L pdf1) = pdf1"
  by (simp add: bsdf_principled_diffuse_eval_reflect_def calculate_principled_diffuse_brdf_def
      fmaxf_def M_1_PI_F_def Let_def)

theorem eval_reflect_pdf_cosine_witness:
  "dot (bsdf_N (example_bsdf (1 / 2))) (make_float3 0 0 (1 / 2)) > 0
   \<and> snd (bsdf_principled_diffuse_eval_reflect example_decls (example_bsdf (1 / 2))
        (make_float3 1 0 0) (make_float3 0 0 (1 / 2)) 7) = 1 / (2 * pi)"
  using eval_reflect_pdf_cosine [of "example_bsdf (1 / 2)" "make_float3 0 0 (1 / 2)"
      example_decls "make_float3 1 0 0" 7]
  by (simp add: example_bsdf_def)

section \<open>Properties of the scheduler\<close>

lemma apply_work_Nil [simp]: "apply_work pl [] p a = a"
  by (simp add: apply_work_def)

lemma apply_work_append:
  "apply_work pl (xs @ ys) p a = apply_work pl ys p (apply_work pl xs p a)"
  by (simp add: apply_work_def)

lemma apply_work_snoc:
  "apply_work pl (xs @ [item]) p a =
     (if fst item = p then accumulate_pixel (apply_work pl xs p a) (pl p (snd item))
      else apply_work pl xs p a)"
  by (simp add: apply_work_def)

lemma render_work_item_apply:
  "render_work_item pl item buffers p =
     (if fst item = p then accumulate_pixel (buffers p) (pl p (snd item)) else buffers p)"
  by (auto simp add: render_work_item_def accumulate_def)

lemma fold_render_work_item:
  "fold (render_work_item pl) ws buffers p = apply_work pl ws p (buffers p)"
  by (induction ws arbitrary: buffers) (simp_all add: apply_work_def render_work_item_apply)

lemma apply_work_row:
  "apply_work pl (map (Pair x) ss) p a = (if x = p then pixel_samples pl p ss a else a)"
  by (induction ss arbitrary: a) (simp_all add: apply_work_def pixel_samples_def)

lemma apply_work_product:
  "distinct ps \<Longrightarrow>
     apply_work pl (List.product ps ss) p a =
       (if p \<in> set ps then pixel_samples pl p ss a else a)"
  by (induction ps arbitrary: a) (auto simp add: apply_work_append apply_work_row)

lemma distinct_tile_pixels: "distinct (tile_pixels t)"
  by (simp add: tile_pixels_def distinct_product)

lemma apply_tile_work:
  "apply_work pl (tile_work t n) p a =
     (if p \<in> set (tile_pixels t) then pixel_samples pl p (tile_samples t n) a else a)"
  by (simp add: tile_work_def apply_work_product distinct_tile_pixels)

lemma full_pipeline_apply:
  "render_samples_full_pipeline pl t n buffers q =
     (if q \<in> set (tile_pixels t) then pixel_samples pl q (tile_samples t n) (buffers q)
      else buffers q)"
  by (simp add: render_samples_full_pipeline_def fold_render_work_item apply_tile_work)

lemma sample_count_pixel_samples:
  "sample_count (pixel_samples pl p ss a) = sample_count a + length ss"
  unfolding pixel_samples_def
  by (induction ss arbitrary: a) (simp_all add: accumulate_pixel_def)

lemma render_tiles_outside:
  "\<forall>t \<in> set ts. q \<notin> set (tile_pixels t) \<Longrightarrow>
     render_tiles pl cancel k ts n buffers q = buffers q"
  by (induction ts arbitrary: k buffers) (simp_all add: full_pipeline_apply)

lemma render_tiles_inside:
  "regions_disjoint ts \<Longrightarrow> i < length ts \<Longrightarrow> q \<in> set (tile_pixels (ts ! i)) \<Longrightarrow>
     render_tiles pl cancel k ts n buffers q =
       (if cancel (k + i) then buffers q
        else pixel_samples pl q (tile_samples (ts ! i) n) (buffers q))"
proof (induction ts arbitrary: k i buffers)
  case Nil
  then show ?case by simp
next
  case (Cons t ts)
  show ?case
  proof (cases i)
    case 0
    with Cons.prems have q: "q \<in> set (tile_pixels t)" by simp
    with Cons.prems have "\<forall>u \<in> set ts. q \<notin> set (tile_pixels u)" by auto
    then show ?thesis using 0 q
      by (simp add: render_tiles_outside full_pipeline_apply)
  next
    case (Suc j)
    with Cons.prems have j: "j < length ts" and qj: "q \<in> set (tile_pixels (ts ! j))"
      by simp_all
    then have "ts ! j \<in> set ts" by simp
    with Cons.prems qj have "q \<notin> set (tile_pixels t)" by auto
    moreover from Cons.prems have "regions_disjoint ts" by simp
    ultimately show ?thesis using Suc Cons.IH [OF _ j qj]
      by (simp add: full_pipeline_apply)
  qed
qed

lemma regions_disjoint_work_tiles:
  "regions_disjoint (work_tiles ts s) = regions_disjoint ts"
  unfolding work_tiles_def by (induction ts) (simp_all add: tile_pixels_def)

lemma regions_disjoint_nth:
  "regions_disjoint ts \<Longrightarrow> i < length ts \<Longrightarrow> j < length ts \<Longrightarrow>
     p \<in> set (tile_pixels (ts ! i)) \<Longrightarrow> p \<in> set (tile_pixels (ts ! j)) \<Longrightarrow> i = j"
proof (induction ts arbitrary: i j)
  case Nil
  then show ?case by simp
next
  case (Cons t ts)
  show ?case
  proof (cases i; cases j)
    fix i' j' assume "i = Suc i'" "j = Suc j'"
    with Cons show ?thesis by auto
  next
    fix j' assume "i = 0" "j = Suc j'"
    with Cons.prems have "ts ! j' \<in> set ts" "p \<in> set (tile_pixels t)" "p \<in> set (tile_pixels (ts ! j'))" by simp_all
    with Cons.prems(1) show ?thesis by auto
  next
    fix i' assume "i = Suc i'" "j = 0"
    with Cons.prems have "ts ! i' \<in> set ts" "p \<in> set (tile_pixels t)" "p \<in> set (tile_pixels (ts ! i'))" by simp_all
    with Cons.prems(1) show ?thesis by auto
  qed simp
qed

lemma sched_inv_start: "sched_inv pl T n buf0 (start_state nw c buf0)"
  by (simp add: sched_inv_def inv_queue_def inv_in_flight_def inv_completed_def
      inv_untouched_def start_state_def)

lemma inv_cancel:
  "sched_inv pl T n buf0 s \<Longrightarrow> sched_inv pl T n buf0 (s\<lparr>cancel_requested_flag := True\<rparr>)"
  by (simp add: sched_inv_def inv_queue_def inv_in_flight_def inv_completed_def
      inv_untouched_def)

lemma inv_skip:
  assumes "sched_inv pl T n buf0 s" and lt: "next_tile s < length T"
  shows "sched_inv pl T n buf0 (s\<lparr>next_tile := Suc (next_tile s), polls := polls s @ [True]\<rparr>)"
proof -
  let ?s' = "s\<lparr>next_tile := Suc (next_tile s), polls := polls s @ [True]\<rparr>"
  from assms have q: "inv_queue T s" and f: "inv_in_flight pl T n buf0 s"
    and c: "inv_completed pl T n buf0 s" and u: "inv_untouched T buf0 s"
    by (simp_all add: sched_inv_def)
  from q have len: "length (polls s) = next_tile s" by (simp add: inv_queue_def)
  have q': "inv_queue T ?s'" using q lt by (simp add: inv_queue_def)
  have f': "inv_in_flight pl T n buf0 ?s'"
    unfolding inv_in_flight_def
  proof (intro allI impI)
    fix i r assume "in_flight ?s' i = Some r"
    then have "in_flight s i = Some r" by simp
    with f have "i < next_tile s" "\<not> polls s ! i"
      "\<exists>d. tile_work (T ! i) n = d @ r
               \<and> (\<forall>p\<in>set (tile_pixels (T ! i)).
                     render_buffers s p = apply_work pl d p (buf0 p))"
      unfolding inv_in_flight_def by blast+
    then show "i < next_tile ?s' \<and> \<not> polls ?s' ! i
        \<and> (\<exists>d. tile_work (T ! i) n = d @ r
               \<and> (\<forall>p\<in>set (tile_pixels (T ! i)).
                     render_buffers ?s' p = apply_work pl d p (buf0 p)))"
      using len by (simp add: nth_append)
  qed
  have c': "inv_completed pl T n buf0 ?s'"
    unfolding inv_completed_def
  proof (intro allI impI)
    fix i assume i: "i < next_tile ?s'" and np: "\<not> polls ?s' ! i" and nf: "in_flight ?s' i = None"
    from np len have "i \<noteq> next_tile s" by (auto simp add: nth_append)
    with i have i': "i < next_tile s" by simp
    with np len have "\<not> polls s ! i" by (simp add: nth_append)
    with c i' nf show "\<forall>p\<in>set (tile_pixels (T ! i)).
           render_buffers ?s' p = apply_work pl (tile_work (T ! i) n) p (buf0 p)"
      unfolding inv_completed_def by simp
  qed
  have u': "inv_untouched T buf0 ?s'"
    unfolding inv_untouched_def
  proof (intro conjI allI impI)
    fix i assume i: "i < length T" and h: "next_tile ?s' \<le> i \<or> polls ?s' ! i"
    have "next_tile s \<le> i \<or> polls s ! i"
    proof (cases "i < next_tile s")
      case True
      with h len show ?thesis by (simp add: nth_append)
    next
      case False
      then show ?thesis by simp
    qed
    with u i show "\<forall>p\<in>set (tile_pixels (T ! i)). render_buffers ?s' p = buf0 p"
      unfolding inv_untouched_def by auto
  next
    fix p assume "\<forall>t\<in>set T. p \<notin> set (tile_pixels t)"
    with u have "render_buffers s p = buf0 p" unfolding inv_untouched_def by blast
    then show "render_buffers ?s' p = buf0 p" by simp
  qed
  from q' f' c' u' show ?thesis by (simp add: sched_inv_def)
qed

lemma inv_pull:
  assumes "sched_inv pl T n buf0 s" and lt: "next_tile s < length T"
  shows "sched_inv pl T n buf0
           (s\<lparr>next_tile := Suc (next_tile s), polls := polls s @ [False],
              idle_workers := k,
              in_flight := (in_flight s)(next_tile s \<mapsto> tile_work (T ! next_tile s) n)\<rparr>)"
proof -
  let ?k = "next_tile s"
  let ?s' = "s\<lparr>next_tile := Suc ?k, polls := polls s @ [False],
              idle_workers := k,
              in_flight := (in_flight s)(?k \<mapsto> tile_work (T ! ?k) n)\<rparr>"
  from assms have q: "inv_queue T s" and f: "inv_in_flight pl T n buf0 s"
    and c: "inv_completed pl T n buf0 s" and u: "inv_untouched T buf0 s"
    by (simp_all add: sched_inv_def)
  from q have len: "length (polls s) = ?k" by (simp add: inv_queue_def)
  from u lt have fresh: "\<forall>p\<in>set (tile_pixels (T ! ?k)). render_buffers s p = buf0 p"
    unfolding inv_untouched_def by auto
  have q': "inv_queue T ?s'" using q lt by (simp add: inv_queue_def)
  have f': "inv_in_flight pl T n buf0 ?s'"
    unfolding inv_in_flight_def
  proof (intro allI impI)
    fix i r assume a: "in_flight ?s' i = Some r"
    show "i < next_tile ?s' \<and> \<not> polls ?s' ! i
        \<and> (\<exists>d. tile_work (T ! i) n = d @ r
               \<and> (\<forall>p\<in>set (tile_pixels (T ! i)).
                     render_buffers ?s' p = apply_work pl d p (buf0 p)))"
    proof (cases "i = ?k")
      case True
      with a have r: "r = tile_work (T ! ?k) n" by simp
      have "tile_work (T ! i) n = [] @ r
            \<and> (\<forall>p\<in>set (tile_pixels (T ! i)).
                  render_buffers ?s' p = apply_work pl [] p (buf0 p))"
        using True r fresh by simp
      then have "\<exists>d. tile_work (T ! i) n = d @ r
               \<and> (\<forall>p\<in>set (tile_pixels (T ! i)).
                     render_buffers ?s' p = apply_work pl d p (buf0 p))" by blast
      then show ?thesis using True len by (simp add: nth_append)
    next
      case False
      with a have "in_flight s i = Some r" by simp
      with f have "i < ?k" "\<not> polls s ! i"
        "\<exists>d. tile_work (T ! i) n = d @ r
               \<and> (\<forall>p\<in>set (tile_pixels (T ! i)).
                     render_buffers s p = apply_work pl d p (buf0 p))"
        unfolding inv_in_flight_def by blast+
      then show ?thesis using len by (simp add: nth_append)
    qed
  qed
  have c': "inv_completed pl T n buf0 ?s'"
    unfolding inv_completed_def
  proof (intro allI impI)
    fix i assume i: "i < next_tile ?s'" and np: "\<not> polls ?s' ! i" and nf: "in_flight ?s' i = None"
    from nf have ne: "i \<noteq> ?k" by (auto split: if_splits)
    with i have i': "i < ?k" by simp
    with np len have "\<not> polls s ! i" by (simp add: nth_append)
    moreover from nf ne have "in_flight s i = None" by simp
    ultimately show "\<forall>p\<in>set (tile_pixels (T ! i)).
           render_buffers ?s' p = apply_work pl (tile_work (T ! i) n) p (buf0 p)"
      using c i' unfolding inv_completed_def by simp
  qed
  have u': "inv_untouched T buf0 ?s'"
    unfolding inv_untouched_def
  proof (intro conjI allI impI)
    fix i assume i: "i < length T" and h: "next_tile ?s' \<le> i \<or> polls ?s' ! i"
    have "next_tile s \<le> i \<or> polls s ! i"
    proof (cases "i < next_tile s")
      case True
      with h len show ?thesis by (simp add: nth_append)
    next
      case False
      then show ?thesis by simp
    qed
    with u i show "\<forall>p\<in>set (tile_pixels (T ! i)). render_buffers ?s' p = buf0 p"
      unfolding inv_untouched_def by auto
  next
    fix p assume "\<forall>t\<in>set T. p \<notin> set (tile_pixels t)"
    with u have "render_buffers s p = buf0 p" unfolding inv_untouched_def by blast
    then show "render_buffers ?s' p = buf0 p" by simp
  qed
  from q' f' c' u' show ?thesis by (simp add: sched_inv_def)
qed

lemma inv_complete:
  assumes "sched_inv pl T n buf0 s" and fl: "in_flight s i = Some []"
  shows "sched_inv pl T n buf0
           (s\<lparr>in_flight := (in_flight s)(i := None), idle_workers := k\<rparr>)"
proof -
  let ?s' = "s\<lparr>in_flight := (in_flight s)(i := None), idle_workers := k\<rparr>"
  from assms have q: "inv_queue T s" and f: "inv_in_flight pl T n buf0 s"
    and c: "inv_completed pl T n buf0 s" and u: "inv_untouched T buf0 s"
    by (simp_all add: sched_inv_def)
  from f fl have full: "\<forall>p\<in>set (tile_pixels (T ! i)).
       render_buffers s p = apply_work pl (tile_work (T ! i) n) p (buf0 p)"
    unfolding inv_in_flight_def by fastforce
  have q': "inv_queue T ?s'" using q by (simp add: inv_queue_def)
  have f': "inv_in_flight pl T n buf0 ?s'"
    using f unfolding inv_in_flight_def by (simp split: if_splits)
  have c': "inv_completed pl T n buf0 ?s'"
    unfolding inv_completed_def
  proof (intro allI impI)
    fix j assume j: "j < next_tile ?s'" and np: "\<not> polls ?s' ! j" and nf: "in_flight ?s' j = None"
    show "\<forall>p\<in>set (tile_pixels (T ! j)).
           render_buffers ?s' p = apply_work pl (tile_work (T ! j) n) p (buf0 p)"
    proof (cases "j = i")
      case True
      with full show ?thesis by simp
    next
      case False
      with nf have "in_flight s j = None" by simp
      with c j np show ?thesis unfolding inv_completed_def by simp
    qed
  qed
  have u': "inv_untouched T buf0 ?s'" using u by (simp add: inv_untouched_def)
  from q' f' c' u' show ?thesis by (simp add: sched_inv_def)
qed

lemma render_work_item_frame:
  assumes "regions_disjoint T" "i < length T" "j < length T" "j \<noteq> i"
    and "fst item \<in> set (tile_pixels (T ! i))" and "p \<in> set (tile_pixels (T ! j))"
  shows "render_work_item pl item b p = b p"
proof -
  from assms have "fst item \<noteq> p" using regions_disjoint_nth by blast
  then show ?thesis by (simp add: render_work_item_apply)
qed

lemma inv_render:
  assumes "sched_inv pl T n buf0 s" and dj: "regions_disjoint T"
    and fl: "in_flight s i = Some (item # rest)"
  shows "sched_inv pl T n buf0
           (s\<lparr>render_buffers := render_work_item pl item (render_buffers s),
              in_flight := (in_flight s)(i \<mapsto> rest)\<rparr>)"
proof -
  let ?b' = "render_work_item pl item (render_buffers s)"
  let ?s' = "s\<lparr>render_buffers := ?b', in_flight := (in_flight s)(i \<mapsto> rest)\<rparr>"
  from assms have q: "inv_queue T s" and f: "inv_in_flight pl T n buf0 s"
    and c: "inv_completed pl T n buf0 s" and u: "inv_untouched T buf0 s"
    by (simp_all add: sched_inv_def)
  from f fl obtain d where i: "i < next_tile s" and np: "\<not> polls s ! i"
    and d: "tile_work (T ! i) n = d @ item # rest"
    and bd: "\<forall>p\<in>set (tile_pixels (T ! i)). render_buffers s p = apply_work pl d p (buf0 p)"
    unfolding inv_in_flight_def by blast
  from i q have iT: "i < length T" by (simp add: inv_queue_def)
  from d have "item \<in> set (tile_work (T ! i) n)" by simp
  then have own: "fst item \<in> set (tile_pixels (T ! i))"
    by (auto simp add: tile_work_def)
  have frame: "\<And>j p. j < length T \<Longrightarrow> j \<noteq> i \<Longrightarrow> p \<in> set (tile_pixels (T ! j)) \<Longrightarrow>
      ?b' p = render_buffers s p"
    using render_work_item_frame [OF dj iT _ _ own] by blast
  have q': "inv_queue T ?s'" using q by (simp add: inv_queue_def)
  have f': "inv_in_flight pl T n buf0 ?s'"
    unfolding inv_in_flight_def
  proof (intro allI impI)
    fix j r assume a: "in_flight ?s' j = Some r"
    show "j < next_tile ?s' \<and> \<not> polls ?s' ! j
        \<and> (\<exists>d. tile_work (T ! j) n = d @ r
               \<and> (\<forall>p\<in>set (tile_pixels (T ! j)).
                     render_buffers ?s' p = apply_work pl d p (buf0 p)))"
    proof (cases "j = i")
      case True
      with a have r: "r = rest" by simp
      have "tile_work (T ! i) n = (d @ [item]) @ rest" using d by simp
      moreover have "\<forall>p\<in>set (tile_pixels (T ! i)).
          ?b' p = apply_work pl (d @ [item]) p (buf0 p)"
        using bd by (simp add: render_work_item_apply apply_work_snoc)
      ultimately have "\<exists>d'. tile_work (T ! i) n = d' @ rest
               \<and> (\<forall>p\<in>set (tile_pixels (T ! i)). ?b' p = apply_work pl d' p (buf0 p))"
        by blast
      then show ?thesis using True r i np by simp
    next
      case False
      with a have fj: "in_flight s j = Some r" by simp
      with f obtain d' where j: "j < next_tile s" and npj: "\<not> polls s ! j"
        and dj': "tile_work (T ! j) n = d' @ r"
        and bj: "\<forall>p\<in>set (tile_pixels (T ! j)). render_buffers s p = apply_work pl d' p (buf0 p)"
        unfolding inv_in_flight_def by blast
      from j q have jT: "j < length T" by (simp add: inv_queue_def)
      have "\<forall>p\<in>set (tile_pixels (T ! j)). ?b' p = apply_work pl d' p (buf0 p)"
        using bj frame [OF jT False] by simp
      with dj' have "\<exists>d. tile_work (T ! j) n = d @ r
               \<and> (\<forall>p\<in>set (tile_pixels (T ! j)). ?b' p = apply_work pl d p (buf0 p))"
        by blast
      then show ?thesis using j npj by simp
    qed
  qed
  have c': "inv_completed pl T n buf0 ?s'"
    unfolding inv_completed_def
  proof (intro allI impI)
    fix j assume j: "j < next_tile ?s'" and npj: "\<not> polls ?s' ! j"
      and nf: "in_flight ?s' j = None"
    from nf have ne: "j \<noteq> i" by (auto split: if_splits)
    with nf have "in_flight s j = None" by simp
    with c j npj have "\<forall>p\<in>set (tile_pixels (T ! j)).
           render_buffers s p = apply_work pl (tile_work (T ! j) n) p (buf0 p)"
      unfolding inv_completed_def by simp
    moreover from j q have "j < length T" by (simp add: inv_queue_def)
    ultimately show "\<forall>p\<in>set (tile_pixels (T ! j)).
           render_buffers ?s' p = apply_work pl (tile_work (T ! j) n) p (buf0 p)"
      using frame [OF _ ne] by simp
  qed
  have u': "inv_untouched T buf0 ?s'"
    unfolding inv_untouched_def
  proof (intro conjI allI impI)
    fix j assume j: "j < length T" and h: "next_tile ?s' \<le> j \<or> polls ?s' ! j"
    with i np have ne: "j \<noteq> i" by auto
    from u j h have "\<forall>p\<in>set (tile_pixels (T ! j)). render_buffers s p = buf0 p"
      unfolding inv_untouched_def by auto
    then show "\<forall>p\<in>set (tile_pixels (T ! j)). render_buffers ?s' p = buf0 p"
      using frame [OF j ne] by simp
  next
    fix p assume out: "\<forall>t\<in>set T. p \<notin> set (tile_pixels t)"
    from iT have "T ! i \<in> set T" by simp
    with out own have "fst item \<noteq> p" by auto
    moreover from u out have "render_buffers s p = buf0 p" unfolding inv_untouched_def by blast
    ultimately show "render_buffers ?s' p = buf0 p" by (simp add: render_work_item_apply)
  qed
  from q' f' c' u' show ?thesis by (simp add: sched_inv_def)
qed

lemma step_inv:
  assumes "sched_inv pl T n buf0 s" "regions_disjoint T" "step pl T n s e = Some s'"
  shows "sched_inv pl T n buf0 s'"
proof (cases e)
  case RequestCancel
  with assms show ?thesis by (auto simp add: step_def inv_cancel)
next
  case PullTile
  with assms show ?thesis
    by (auto simp add: step_def inv_skip inv_pull split: if_splits)
next
  case (Advance i)
  with assms show ?thesis
    by (auto simp add: step_def inv_complete inv_render split: option.splits list.splits)
qed

lemma run_inv:
  "sched_inv pl T n buf0 s \<Longrightarrow> regions_disjoint T \<Longrightarrow> run pl T n s es = Some s'
     \<Longrightarrow> sched_inv pl T n buf0 s'"
proof (induction es arbitrary: s)
  case Nil
  then show ?case by simp
next
  case (Cons e es)
  then show ?case by (auto split: option.splits dest: step_inv)
qed

lemma finished_buffers:
  assumes inv: "sched_inv pl T n buf0 s" and dj: "regions_disjoint T" and fin: "finished T s"
  shows "render_buffers s = render_tiles pl (\<lambda>k. polls s ! k) 0 T n buf0"
proof
  fix p
  from inv have q: "inv_queue T s" and c: "inv_completed pl T n buf0 s"
    and u: "inv_untouched T buf0 s"
    by (simp_all add: sched_inv_def)
  from fin have nt: "next_tile s = length T" and idle: "\<forall>i<length T. in_flight s i = None"
    by (simp_all add: finished_def)
  show "render_buffers s p = render_tiles pl (\<lambda>k. polls s ! k) 0 T n buf0 p"
  proof (cases "\<exists>i<length T. p \<in> set (tile_pixels (T ! i))")
    case True
    then obtain i where i: "i < length T" and p: "p \<in> set (tile_pixels (T ! i))" by blast
    have "render_buffers s p =
            (if polls s ! i then buf0 p else pixel_samples pl p (tile_samples (T ! i) n) (buf0 p))"
    proof (cases "polls s ! i")
      case True
      with u i p show ?thesis unfolding inv_untouched_def by auto
    next
      case False
      with c i p nt idle have "render_buffers s p = apply_work pl (tile_work (T ! i) n) p (buf0 p)"
        unfolding inv_completed_def by auto
      with False p show ?thesis by (simp add: apply_tile_work)
    qed
    then show ?thesis using render_tiles_inside [OF dj i p, of pl "\<lambda>k. polls s ! k" 0 n buf0]
      by simp
  next
    case False
    have out: "\<forall>t\<in>set T. p \<notin> set (tile_pixels t)"
    proof (intro ballI notI)
      fix t assume "t \<in> set T" and pt: "p \<in> set (tile_pixels t)"
      then obtain i where "i < length T" "T ! i = t" by (auto simp add: in_set_conv_nth)
      with pt False show False by blast
    qed
    with u have "render_buffers s p = buf0 p" unfolding inv_untouched_def by blast
    with out show ?thesis by (simp add: render_tiles_outside)
  qed
qed

lemma step_polls:
  "step pl T n s e = Some s' \<Longrightarrow> \<exists>ps. polls s' = polls s @ ps"
  by (cases e) (auto simp add: step_def split: if_splits option.splits list.splits)

lemma run_polls:
  "run pl T n s es = Some s' \<Longrightarrow> \<exists>ps. polls s' = polls s @ ps"
proof (induction es arbitrary: s)
  case Nil
  then show ?case by simp
next
  case (Cons e es)
  from Cons.prems obtain s1 where 1: "step pl T n s e = Some s1" and 2: "run pl T n s1 es = Some s'"
    by (auto split: option.splits)
  from step_polls [OF 1] Cons.IH [OF 2] show ?case by auto
qed

lemma run_append:
  "run pl T n s (es @ es') =
     (case run pl T n s es of None \<Rightarrow> None | Some s1 \<Rightarrow> run pl T n s1 es')"
  by (induction es arbitrary: s) (simp_all split: option.splits)

lemma sum_fun_upd:
  fixes g :: "'a \<Rightarrow> nat" and i N :: nat
  assumes "i < N"
  shows "(\<Sum>j<N. g ((f(i := v)) j)) + g (f i) = (\<Sum>j<N. g (f j)) + g v"
proof -
  have i: "i \<in> {..<N}" using assms by simp
  have fin: "finite {..<N}" by simp
  have rest: "(\<Sum>j\<in>{..<N} - {i}. g ((f(i := v)) j)) = (\<Sum>j\<in>{..<N} - {i}. g (f j))"
    by (rule sum.cong) simp_all
  have a: "(\<Sum>j<N. g ((f(i := v)) j)) = g v + (\<Sum>j\<in>{..<N} - {i}. g ((f(i := v)) j))"
    using sum.remove [OF fin i, of "\<lambda>j. g ((f(i := v)) j)"] by simp
  have b: "(\<Sum>j<N. g (f j)) = g (f i) + (\<Sum>j\<in>{..<N} - {i}. g (f j))"
    using sum.remove [OF fin i, of "\<lambda>j. g (f j)"] by simp
  show ?thesis unfolding a b rest by simp
qed

lemma inv_pool_start: "inv_pool nw T (start_state nw c buf0)"
  by (simp add: inv_pool_def start_state_def busy_workers_def)

lemma step_pool:
  assumes "inv_pool nw T s" "step pl T n s e = Some s'"
  shows "inv_pool nw T s'"
proof (cases e)
  case RequestCancel
  with assms show ?thesis by (auto simp add: step_def inv_pool_def busy_workers_def)
next
  case PullTile
  show ?thesis
  proof (cases "cancel_requested_flag s")
    case True
    with PullTile assms show ?thesis
      by (auto simp add: step_def inv_pool_def busy_workers_def less_Suc_eq split: if_splits)
  next
    case False
    let ?k = "next_tile s"
    let ?g = "\<lambda>x::work_item list option. case x of None \<Rightarrow> 0::nat | Some r \<Rightarrow> 1"
    from PullTile assms False have en: "0 < idle_workers s" "?k < length T"
      and s': "s' = s\<lparr>next_tile := Suc ?k, polls := polls s @ [False],
                      idle_workers := idle_workers s - 1,
                      in_flight := (in_flight s)(?k \<mapsto> tile_work (T ! ?k) n)\<rparr>"
      by (auto simp add: step_def split: if_splits)
    from assms(1) have none: "in_flight s ?k = None"
      unfolding inv_pool_def by (cases "in_flight s ?k") auto
    from sum_fun_upd [OF en(2), of ?g "in_flight s" "Some (tile_work (T ! ?k) n)"] none
    have "busy_workers T s' = busy_workers T s + 1"
      by (simp add: busy_workers_def s')
    with assms(1) en show ?thesis
      by (auto simp add: inv_pool_def s' less_Suc_eq)
  qed
next
  case (Advance i)
  let ?g = "\<lambda>x::work_item list option. case x of None \<Rightarrow> 0::nat | Some r \<Rightarrow> 1"
  from Advance assms obtain r where r: "in_flight s i = Some r"
    by (auto simp add: step_def split: option.splits)
  with assms(1) have iT: "i < length T" by (auto simp add: inv_pool_def)
  show ?thesis
  proof (cases r)
    case Nil
    with r Advance assms have s': "s' = s\<lparr>in_flight := (in_flight s)(i := None),
                       idle_workers := Suc (idle_workers s)\<rparr>"
      by (simp add: step_def)
    from sum_fun_upd [OF iT, of ?g "in_flight s" None] r
    have "busy_workers T s' + 1 = busy_workers T s"
      by (simp add: busy_workers_def s')
    with assms(1) show ?thesis
      by (auto simp add: inv_pool_def s' split: if_splits)
  next
    case (Cons item rest)
    with r Advance assms have s': "s' = s\<lparr>render_buffers := render_work_item pl item (render_buffers s),
                       in_flight := (in_flight s)(i \<mapsto> rest)\<rparr>"
      by (simp add: step_def)
    from sum_fun_upd [OF iT, of ?g "in_flight s" "Some rest"] r
    have "busy_workers T s' = busy_workers T s"
      by (simp add: busy_workers_def s')
    with assms(1) r show ?thesis
      by (auto simp add: inv_pool_def s' split: if_splits)
  qed
qed

lemma run_pool:
  "inv_pool nw T s \<Longrightarrow> run pl T n s es = Some s' \<Longrightarrow> inv_pool nw T s'"
proof (induction es arbitrary: s)
  case Nil
  then show ?case by simp
next
  case (Cons e es)
  then show ?case by (auto split: option.splits dest: step_pool)
qed

lemma remaining_zero:
  assumes "remaining_work T s = 0" and "i < length T"
  shows "in_flight s i = None"
proof -
  from assms have "(case in_flight s i of None \<Rightarrow> 0 | Some r \<Rightarrow> Suc (length r)) = (0::nat)"
    by (simp add: remaining_work_def)
  then show ?thesis by (cases "in_flight s i") simp_all
qed

lemma remaining_pos:
  assumes "0 < remaining_work T s"
  shows "\<exists>i<length T. \<exists>r. in_flight s i = Some r"
proof (rule ccontr)
  assume "\<not> ?thesis"
  then have "\<forall>i<length T. in_flight s i = None" by auto
  then have "remaining_work T s = 0" by (simp add: remaining_work_def)
  with assms show False by simp
qed

lemma advance_decreases:
  assumes iT: "i < length T" and r: "in_flight s i = Some r"
  shows "\<exists>s'. step pl T n s (Advance i) = Some s' \<and> next_tile s' = next_tile s
            \<and> remaining_work T s' < remaining_work T s"
proof -
  let ?g = "\<lambda>x::work_item list option. case x of None \<Rightarrow> 0::nat | Some r \<Rightarrow> Suc (length r)"
  show ?thesis
  proof (cases r)
    case Nil
    from sum_fun_upd [OF iT, of ?g "in_flight s" None] r Nil
    show ?thesis by (simp add: step_def remaining_work_def)
  next
    case (Cons item rest)
    from sum_fun_upd [OF iT, of ?g "in_flight s" "Some rest"] r Cons
    show ?thesis by (simp add: step_def remaining_work_def)
  qed
qed

lemma drain:
  "\<exists>es s'. run pl T n s es = Some s' \<and> next_tile s' = next_tile s
      \<and> (\<forall>i<length T. in_flight s' i = None)"
proof (induction "remaining_work T s" arbitrary: s rule: less_induct)
  case less
  show ?case
  proof (cases "remaining_work T s = 0")
    case True
    then have "run pl T n s [] = Some s \<and> next_tile s = next_tile s
      \<and> (\<forall>i<length T. in_flight s i = None)"
      by (simp add: remaining_zero)
    then show ?thesis by blast
  next
    case False
    then obtain i r where "i < length T" "in_flight s i = Some r"
      using remaining_pos by blast
    from advance_decreases [OF this, of pl n] obtain s1 where
      1: "step pl T n s (Advance i) = Some s1" and 2: "next_tile s1 = next_tile s"
      and 3: "remaining_work T s1 < remaining_work T s" by blast
    from less [OF 3] obtain es s' where
      4: "run pl T n s1 es = Some s'" and 5: "next_tile s' = next_tile s1"
      and 6: "\<forall>i<length T. in_flight s' i = None" by blast
    from 1 4 have "run pl T n s (Advance i # es) = Some s'" by simp
    with 2 5 6 show ?thesis by metis
  qed
qed

lemma can_finish:
  assumes "0 < nw"
  shows "inv_pool nw T s \<Longrightarrow> \<exists>es s'. run pl T n s es = Some s' \<and> finished T s'"
proof (induction "length T - next_tile s" arbitrary: s rule: less_induct)
  case less
  from drain [of pl T n s] obtain es1 s1 where
    1: "run pl T n s es1 = Some s1" and 2: "next_tile s1 = next_tile s"
    and 3: "\<forall>i<length T. in_flight s1 i = None" by blast
  from run_pool [OF less.prems 1] have p1: "inv_pool nw T s1" .
  show ?case
  proof (cases "next_tile s1 = length T")
    case True
    with 3 have "finished T s1" by (simp add: finished_def)
    with 1 show ?thesis by blast
  next
    case False
    with p1 have lt: "next_tile s1 < length T" by (simp add: inv_pool_def)
    from 3 have "busy_workers T s1 = 0" by (simp add: busy_workers_def)
    with p1 assms have idle: "0 < idle_workers s1" by (simp add: inv_pool_def)
    from lt idle obtain s2 where 4: "step pl T n s1 PullTile = Some s2"
      and 5: "next_tile s2 = Suc (next_tile s1)"
      by (cases "cancel_requested_flag s1") (simp_all add: step_def)
    from step_pool [OF p1 4] have p2: "inv_pool nw T s2" .
    from 5 2 lt have "length T - next_tile s2 < length T - next_tile s" by simp
    from less.hyps [OF this p2] obtain es2 s' where
      6: "run pl T n s2 es2 = Some s'" and 7: "finished T s'" by blast
    from 1 4 6 have "run pl T n s (es1 @ PullTile # es2) = Some s'"
      by (simp add: run_append)
    with 7 show ?thesis by blast
  qed
qed

lemma step_after_cancel:
  assumes "cancel_requested_flag s" "step pl T n s e = Some s'"
  shows "cancel_requested_flag s' \<and> (\<exists>ps. polls s' = polls s @ ps \<and> (\<forall>x\<in>set ps. x))"
  using assms
  by (cases e) (auto simp add: step_def split: if_splits option.splits list.splits)

lemma run_after_cancel:
  "cancel_requested_flag s \<Longrightarrow> run pl T n s es = Some s' \<Longrightarrow>
     \<exists>ps. polls s' = polls s @ ps \<and> (\<forall>x\<in>set ps. x)"
proof (induction es arbitrary: s)
  case Nil
  then show ?case by simp
next
  case (Cons e es)
  from Cons.prems obtain s1 where 1: "step pl T n s e = Some s1" and 2: "run pl T n s1 es = Some s'"
    by (auto split: option.splits)
  from step_after_cancel [OF Cons.prems(1) 1] obtain ps1 where
    f: "cancel_requested_flag s1" and p1: "polls s1 = polls s @ ps1" "\<forall>x\<in>set ps1. x" by blast
  from Cons.IH [OF f 2] obtain ps2 where "polls s' = polls s1 @ ps2" "\<forall>x\<in>set ps2. x" by blast
  with p1 have "polls s' = polls s @ (ps1 @ ps2) \<and> (\<forall>x\<in>set (ps1 @ ps2). x)" by auto
  then show ?case by blast
qed

text \<open>
  Claim C8, on the scheduler modelled from the specification. The tiles share no pixel
  and the pool has a worker. Take any moment \<open>s\<close> of any execution of the call, for
  instance the moment the flag is set. Then the call can still return; and however it
  goes on from \<open>s\<close>, in the state \<open>s'\<close> in which it returns, for every pixel of every
  tile:
  \<^item> the pixel holds what it held at the call, or what the run that is never cancelled
    leaves there: no tile is cut short;
  \<^item> if the tile was in flight at \<open>s\<close>, the pixel holds what the uncancelled run leaves,
    all \<open>samples_num\<close> samples counted, whether or not the flag was set;
  \<^item> if the flag was set at \<open>s\<close> and the tile was not yet started, the pixel holds what
    it held at the call: the tile is skipped;
  \<^item> if the tile was done with at \<open>s\<close>, the pixel holds what it held at \<open>s\<close>: nothing
    accumulated is taken back.
\<close>

theorem render_samples_cancel_at_tile_granularity:
  assumes disjoint: "regions_disjoint tiles" and pool: "0 < num_workers"
    and reach: "render_samples_parallel pipeline tiles start_sample samples_num num_workers flag
                  buffers es = Some s"
  shows "(\<exists>es' s'. run pipeline (work_tiles tiles start_sample) samples_num s es' = Some s'
                    \<and> finished (work_tiles tiles start_sample) s')
    \<and> (\<forall>es' s'. run pipeline (work_tiles tiles start_sample) samples_num s es' = Some s'
                  \<longrightarrow> finished (work_tiles tiles start_sample) s' \<longrightarrow>
          (\<forall>i<length tiles. \<forall>p\<in>set (tile_pixels (tiles ! i)).
              (render_buffers s' p = buffers p
               \<or> render_buffers s' p =
                   render_samples pipeline (\<lambda>k. False) tiles start_sample samples_num buffers p)
              \<and> (in_flight s i \<noteq> None \<longrightarrow>
                   render_buffers s' p =
                     render_samples pipeline (\<lambda>k. False) tiles start_sample samples_num buffers p
                   \<and> sample_count (render_buffers s' p) =
                       sample_count (buffers p) + nat samples_num)
              \<and> (cancel_requested_flag s \<and> next_tile s \<le> i \<longrightarrow>
                   render_buffers s' p = buffers p)
              \<and> (i < next_tile s \<and> in_flight s i = None \<longrightarrow>
                   render_buffers s' p = render_buffers s p)))"
proof -
  let ?T = "work_tiles tiles start_sample"
  let ?s0 = "start_state num_workers flag buffers"
  let ?full = "render_samples pipeline (\<lambda>k. False) tiles start_sample samples_num buffers"
  from reach have r: "run pipeline ?T samples_num ?s0 es = Some s"
    by (simp add: render_samples_parallel_def)
  have dj: "regions_disjoint ?T" using disjoint by (simp add: regions_disjoint_work_tiles)
  have inv: "sched_inv pipeline ?T samples_num buffers s"
    using run_inv [OF sched_inv_start dj r] .
  from inv have len: "length (polls s) = next_tile s"
    by (simp add: sched_inv_def inv_queue_def)
  from run_pool [OF inv_pool_start r] have "inv_pool num_workers ?T s" .
  from can_finish [OF pool this]
  have live: "\<exists>es' s'. run pipeline ?T samples_num s es' = Some s' \<and> finished ?T s'" .
  have safe: "(render_buffers s' p = buffers p \<or> render_buffers s' p = ?full p)
      \<and> (in_flight s i \<noteq> None \<longrightarrow>
           render_buffers s' p = ?full p
           \<and> sample_count (render_buffers s' p) = sample_count (buffers p) + nat samples_num)
      \<and> (cancel_requested_flag s \<and> next_tile s \<le> i \<longrightarrow> render_buffers s' p = buffers p)
      \<and> (i < next_tile s \<and> in_flight s i = None \<longrightarrow> render_buffers s' p = render_buffers s p)"
    if r': "run pipeline ?T samples_num s es' = Some s'" and fin: "finished ?T s'"
      and i: "i < length tiles" and p: "p \<in> set (tile_pixels (tiles ! i))"
    for es' s' i p
  proof -
    have iT: "i < length ?T" using i by (simp add: work_tiles_def)
    have p': "p \<in> set (tile_pixels (?T ! i))"
      using i p by (simp add: work_tiles_def tile_pixels_def)
    have inv': "sched_inv pipeline ?T samples_num buffers s'"
      using run_inv [OF inv dj r'] .
    from run_polls [OF r'] obtain ps where ps: "polls s' = polls s @ ps" by blast
    from inv' fin have len': "length (polls s') = length ?T"
      by (simp add: sched_inv_def inv_queue_def finished_def)
    have old: "i < next_tile s \<Longrightarrow> polls s' ! i = polls s ! i"
      using ps len by (simp add: nth_append)
    have full: "?full p = pixel_samples pipeline p (tile_samples (?T ! i) samples_num) (buffers p)"
      by (simp add: render_samples_def render_tiles_inside [OF dj iT p'])
    have "render_buffers s' p =
            render_tiles pipeline (\<lambda>k. polls s' ! k) 0 ?T samples_num buffers p"
      using finished_buffers [OF inv' dj fin] by simp
    then have e: "render_buffers s' p = (if polls s' ! i then buffers p else ?full p)"
      by (simp add: full render_tiles_inside [OF dj iT p'])
    have cnt: "sample_count (?full p) = sample_count (buffers p) + nat samples_num"
      by (simp add: full sample_count_pixel_samples tile_samples_def)
    have 1: "render_buffers s' p = buffers p \<or> render_buffers s' p = ?full p"
      using e by (cases "polls s' ! i") simp_all
    have 2: "render_buffers s' p = ?full p
           \<and> sample_count (render_buffers s' p) = sample_count (buffers p) + nat samples_num"
      if "in_flight s i \<noteq> None"
    proof -
      from that obtain r where "in_flight s i = Some r" by auto
      with inv have "i < next_tile s" "\<not> polls s ! i"
        unfolding sched_inv_def inv_in_flight_def by blast+
      with old have "\<not> polls s' ! i" by simp
      with e cnt show ?thesis by simp
    qed
    have 3: "render_buffers s' p = buffers p"
      if c: "cancel_requested_flag s \<and> next_tile s \<le> i"
    proof -
      from c run_after_cancel [OF _ r'] obtain qs where
        qs: "polls s' = polls s @ qs" "\<forall>x\<in>set qs. x" by blast
      from qs(1) len len' iT c have "i - next_tile s < length qs" by auto
      then have "qs ! (i - next_tile s) \<in> set qs" by simp
      with qs(2) have "qs ! (i - next_tile s)" by blast
      with qs(1) c len have "polls s' ! i" by (simp add: nth_append)
      with e show ?thesis by simp
    qed
    have 4: "render_buffers s' p = render_buffers s p"
      if d: "i < next_tile s \<and> in_flight s i = None"
    proof (cases "polls s ! i")
      case True
      with inv iT p' have "render_buffers s p = buffers p"
        unfolding sched_inv_def inv_untouched_def by blast
      with True old d e show ?thesis by simp
    next
      case False
      with inv d p' have "render_buffers s p =
          apply_work pipeline (tile_work (?T ! i) samples_num) p (buffers p)"
        unfolding sched_inv_def inv_completed_def by blast
      then have "render_buffers s p = ?full p"
        using p' by (simp add: apply_tile_work full)
      with False old d e show ?thesis by simp
    qed
    from 1 2 3 4 show ?thesis by blast
  qed
  from live safe show ?thesis by blast
qed

theorem render_samples_cancel_at_tile_granularity_witness:
  "regions_disjoint example_tiles \<and> (0::nat) < 1
   \<and> render_samples_parallel (\<lambda>p s. 1) example_tiles 0 2 1 False empty_buffers
       [PullTile, Advance 0, RequestCancel] = Some example_state
   \<and> run (\<lambda>p s. 1) (work_tiles example_tiles 0) 2 example_state
       [Advance 0, Advance 0, PullTile] = Some example_end_state
   \<and> finished (work_tiles example_tiles 0) example_end_state
   \<and> in_flight example_state 0 \<noteq> None
   \<and> cancel_requested_flag example_state \<and> next_tile example_state \<le> 1
   \<and> sample_count (render_buffers example_end_state (0, 0)) = 2
   \<and> render_buffers example_end_state (1, 0) = empty_buffers (1, 0)"
proof -
  note defs = example_end_state_def example_state_def render_samples_parallel_def step_def
    start_state_def work_tiles_def example_tiles_def tile_work_def tile_pixels_def
    tile_samples_def upto.simps
  have d: "regions_disjoint example_tiles"
    by (simp add: example_tiles_def tile_pixels_def)
  have w: "(0::nat) < 1" by simp
  have r: "render_samples_parallel (\<lambda>p s. 1) example_tiles 0 2 1 False empty_buffers
       [PullTile, Advance 0, RequestCancel] = Some example_state"
    by (simp add: defs)
  have r': "run (\<lambda>p s. 1) (work_tiles example_tiles 0) 2 example_state
       [Advance 0, Advance 0, PullTile] = Some example_end_state"
    by (simp add: defs)
  have f: "finished (work_tiles example_tiles 0) example_end_state"
    by (simp add: defs finished_def less_Suc_eq numeral_2_eq_2)
  have s: "in_flight example_state 0 \<noteq> None" "cancel_requested_flag example_state"
    "next_tile example_state \<le> 1"
    by (simp_all add: defs)
  have p0: "(0, 0) \<in> set (tile_pixels (example_tiles ! 0))"
    and p1: "(1, 0) \<in> set (tile_pixels (example_tiles ! 1))"
    by (simp_all add: example_tiles_def tile_pixels_def)
  have c: "sample_count (empty_buffers (0, 0)) = 0" by (simp add: empty_buffers_def)
  from render_samples_cancel_at_tile_granularity [OF d w r]
  have t: "\<forall>i<length example_tiles. \<forall>p\<in>set (tile_pixels (example_tiles ! i)).
      (in_flight example_state i \<noteq> None \<longrightarrow>
         sample_count (render_buffers example_end_state p) =
           sample_count (empty_buffers p) + nat 2)
      \<and> (cancel_requested_flag example_state \<and> next_tile example_state \<le> i \<longrightarrow>
           render_buffers example_end_state p = empty_buffers p)"
    using r' f by blast
  have l: "0 < length example_tiles" "1 < length example_tiles"
    by (simp_all add: example_tiles_def)
  from t l(1) p0 s(1) c have a: "sample_count (render_buffers example_end_state (0, 0)) = 2"
    by fastforce
  from t l(2) p1 s(2,3) have b: "render_buffers example_end_state (1, 0) = empty_buffers (1, 0)"
    by blast
  from d w r r' f s a b show ?thesis by blast
qed

end
